theory Spec2Isabelle
  imports Complex_Main "HOL-Library.Word"
begin

section \<open>Visualizing the stock market structure: the notebook's own logic\<close>

text \<open>
  The notebook \<^verbatim>\<open>Visualizing-the-stock-market.ipynb\<close> is a linear Python 2 script.
  The statistical steps (graph lasso, affinity propagation, locally linear embedding)
  and the colour map are library calls; their results are parameters of the model.
  What the notebook itself computes is embedded here: the colour-scale helper
  \<^verbatim>\<open>matplotlib_to_plotly\<close>, the standardisation of the variation matrix, the
  thresholding of the partial correlations into edges, the two kinds of traces, and
  the loop that places the labels.

  Numbers: a NumPy or Python float is an IEEE binary64 value. Where the exact value
  of a float decides a property (the positions computed by the colour-scale helper,
  the division by the standard deviation), every operation is rounded as binary64
  rounds it, see \<open>f64_round\<close>. In the edges and in the label placement, whose
  properties rest on comparisons and selections, a float is the \<^typ>\<open>real\<close> it
  denotes and its arithmetic is not rounded.
\<close>

subsection \<open>Errors\<close>

datatype error = ZeroDivisionError | IndexError | ValueError

definition bind_err :: "error + 'a \<Rightarrow> ('a \<Rightarrow> error + 'b) \<Rightarrow> error + 'b" where
  "bind_err m f = (case m of Inl e \<Rightarrow> Inl e | Inr v \<Rightarrow> f v)"

subsection \<open>Binary64 arithmetic\<close>

text \<open>
  An IEEE binary64 number has a significand of 53 bits and an exponent of at least
  \<open>-1022\<close>; below that it is subnormal. Every arithmetic operation returns the exact
  result rounded to the nearest such number, a tie going to the neighbour with the
  even significand. \<open>rne\<close> rounds a real to the nearest integer, ties to even;
  \<open>f64_round x\<close> scales \<open>x\<close> by the unit in the last place of its binade, rounds, and
  scales back. The exponent is not bounded from above here: the overflow of a result
  to an infinity is \<open>np_round\<close>.
\<close>

definition rne :: "real \<Rightarrow> int" where
  "rne m =
     (let f = \<lfloor>m\<rfloor>; r = m - of_int f
      in if r < 1 / 2 then f
         else if 1 / 2 < r then f + 1
         else if even f then f else f + 1)"

definition f64_exponent :: "real \<Rightarrow> int" where
  "f64_exponent x = max \<lfloor>log 2 \<bar>x\<bar>\<rfloor> (- 1022)"

definition f64_round :: "real \<Rightarrow> real" where
  "f64_round x =
     (if x = 0 then 0
      else of_int (rne (x / 2 powr (of_int (f64_exponent x) - 52)))
             * 2 powr (of_int (f64_exponent x) - 52))"

text \<open>
  The conversion of a Python integer to a float rounds in the same way. (Python raises
  \<^verbatim>\<open>OverflowError\<close> for an integer beyond the binary64 range, about \<open>1.8e308\<close>; such
  sampling counts are outside the model.)
\<close>

definition f64_of_int :: "int \<Rightarrow> real" where
  "f64_of_int k = f64_round (of_int k)"




subsection \<open>The colour-scale helper\<close>

text \<open>
  \<^verbatim>\<open>
  def matplotlib_to_plotly(cmap, pl_entries):
      h = 1.0/(pl_entries-1)
      pl_colorscale = []

      for k in range(pl_entries):
          C = map(np.uint8, np.array(cmap(k*h)[:3])*255)
          pl_colorscale.append([k*h, 'rgb'+str((C[0], C[1], C[2]))])

      return pl_colorscale
  \<close>
  A colour map takes a position and returns an RGBA tuple; \<^verbatim>\<open>[:3]\<close> keeps the
  first three components.
\<close>

type_synonym rgba = "real \<times> real \<times> real \<times> real"
type_synonym uint8 = "8 word"

definition first3 :: "rgba \<Rightarrow> real list" where
  "first3 c = (case c of (r, g, b, a) \<Rightarrow> [r, g, b])"

text \<open>\<^verbatim>\<open>np.uint8\<close> of a float: truncation towards zero, then the low eight bits.\<close>

definition np_uint8 :: "real \<Rightarrow> uint8" where
  "np_uint8 v = word_of_int (if 0 \<le> v then \<lfloor>v\<rfloor> else \<lceil>v\<rceil>)"

definition digit :: "nat \<Rightarrow> char" where
  "digit d = ''0123456789'' ! d"

text \<open>\<^verbatim>\<open>str\<close> of an unsigned byte: its decimal digits, at most three.\<close>

definition str_uint8 :: "uint8 \<Rightarrow> string" where
  "str_uint8 w =
     (let n = unat w in
      if n < 10 then [digit n]
      else if n < 100 then [digit (n div 10), digit (n mod 10)]
      else [digit (n div 100), digit (n div 10 mod 10), digit (n mod 10)])"

text \<open>\<^verbatim>\<open>str((a, b, c))\<close> of a tuple of three bytes.\<close>

definition str_tuple3 :: "uint8 \<Rightarrow> uint8 \<Rightarrow> uint8 \<Rightarrow> string" where
  "str_tuple3 a b c = ''('' @ str_uint8 a @ '', '' @ str_uint8 b @ '', '' @ str_uint8 c @ '')''"

text \<open>
  One pass of the loop body: the stop appended for \<open>k\<close>. \<^verbatim>\<open>k*h\<close> converts \<open>k\<close> to
  a float and rounds the product; the colour components are multiplied by \<open>255\<close> as
  floats.
\<close>

definition colorscale_entry :: "(real \<Rightarrow> rgba) \<Rightarrow> real \<Rightarrow> int \<Rightarrow> real \<times> string" where
  "colorscale_entry cmap h k =
     (let C = map np_uint8 (map (\<lambda>c. f64_round (c * 255))
                               (first3 (cmap (f64_round (f64_of_int k * h)))))
      in (f64_round (f64_of_int k * h), ''rgb'' @ str_tuple3 (C ! 0) (C ! 1) (C ! 2)))"

text \<open>
  \<^verbatim>\<open>1.0/(pl_entries-1)\<close> is a Python float division: it raises
  \<^verbatim>\<open>ZeroDivisionError\<close> when the divisor is zero, and rounds the quotient otherwise.
  \<^verbatim>\<open>range(pl_entries)\<close> is \<open>[0..pl_entries - 1]\<close>, empty when \<open>pl_entries \<le> 0\<close>.
\<close>

definition matplotlib_to_plotly :: "(real \<Rightarrow> rgba) \<Rightarrow> int \<Rightarrow> error + (real \<times> string) list" where
  "matplotlib_to_plotly cmap pl_entries =
     (if pl_entries - 1 = 0 then Inl ZeroDivisionError
      else
        let h = f64_round (1 / f64_of_int (pl_entries - 1)) in
        Inr (fold (\<lambda>k pl_colorscale. pl_colorscale @ [colorscale_entry cmap h k])
               [0..pl_entries - 1] []))"

text \<open>
  A sample palette for evaluating the helper at concrete inputs: a grey ramp, opaque.
  It stands for the library's colour map, which is not part of the notebook.
\<close>

definition grey_ramp :: "real \<Rightarrow> rgba" where
  "grey_ramp t = (t, t, t, 1)"

subsection \<open>Standardisation of the variation matrix\<close>








subsection \<open>The partial correlations and the edges\<close>








text \<open>
  The embedding is a NumPy array with two rows, \<^verbatim>\<open>embedding[0]\<close> and
  \<^verbatim>\<open>embedding[1]\<close>: a pair of lists. \<^verbatim>\<open>embedding[:, i]\<close> raises
  \<^verbatim>\<open>IndexError\<close> when \<open>i\<close> is not a column.
\<close>

type_synonym embedding = "real list \<times> real list"

definition getitem :: "'a list \<Rightarrow> nat \<Rightarrow> error + 'a" where
  "getitem xs i = (if i < length xs then Inr (xs ! i) else Inl IndexError)"







subsection \<open>The node trace\<close>

text \<open>
  \<^verbatim>\<open>
  trace = go.Scatter(x= embedding[0], y=embedding[1], name=labels,
                     mode="markers", hoverinfo='none',
                     marker = dict(size=10,
                     color = np.random.randn(500),
                     colorscale= matplotlib_to_plotly(plt.cm.spectral,500),))
  \<close>
  The sample drawn by \<^verbatim>\<open>np.random.randn(500)\<close> and the colour map are parameters.
\<close>

record node_trace =
  node_x :: "real list"
  node_y :: "real list"
  node_name :: "int list"
  node_mode :: string
  node_hoverinfo :: string
  marker_size :: int
  marker_color :: "real list"
  marker_colorscale :: "(real \<times> string) list"

definition trace :: "embedding \<Rightarrow> int list \<Rightarrow> real list \<Rightarrow> (real \<Rightarrow> rgba) \<Rightarrow> error + node_trace" where
  "trace embedding labels randn cmap =
     bind_err (matplotlib_to_plotly cmap 500) (\<lambda>colorscale.
       Inr \<lparr>node_x = fst embedding, node_y = snd embedding, node_name = labels,
            node_mode = ''markers'', node_hoverinfo = ''none'',
            marker_size = 10, marker_color = randn, marker_colorscale = colorscale\<rparr>)"

subsection \<open>Label placement\<close>

text \<open>
  \<^verbatim>\<open>
  for index, (name, label, (x, y)) in enumerate(
          zip(names, labels, embedding.T)):

      dx = x - embedding[0]
      dx[index] = 1
      dy = y - embedding[1]
      dy[index] = 1
      this_dx = dx[np.argmin(np.abs(dy))]
      this_dy = dy[np.argmin(np.abs(dx))]
      if this_dx > 0:
          horizontalalignment = 'left'
          x = x + .002
      else:
          horizontalalignment = 'right'
          x = x - .002
      if this_dy > 0:
          verticalalignment = 'bottom'
          y = y + .002
      else:
          verticalalignment = 'top',
          y = y - .002
      annot = dict(x=x, y=y, text=name,showarrow=False
                  )
      annotations.append(annot)
  \<close>
  \<^verbatim>\<open>x - embedding[0]\<close> allocates a new array, so the assignment to
  \<^verbatim>\<open>dx[index]\<close> leaves the embedding as it is, and an iteration reads nothing that
  an earlier one wrote except the list of annotations.
\<close>

datatype pyval = Num real | Str string | Bool bool | Tuple "pyval list"

text \<open>\<^verbatim>\<open>d = c - row; d[index] = 1\<close>.\<close>

definition displacement :: "real \<Rightarrow> real list \<Rightarrow> nat \<Rightarrow> error + real list" where
  "displacement c row index =
     (if index < length row then Inr ((map (\<lambda>e. c - e) row)[index := 1])
      else Inl IndexError)"

text \<open>
  \<^verbatim>\<open>np.argmin\<close>: the index of the first occurrence of the minimum, found by one
  scan; \<^verbatim>\<open>ValueError\<close> on an empty array.
\<close>

fun argmin_scan :: "nat \<Rightarrow> real \<Rightarrow> nat \<Rightarrow> real list \<Rightarrow> nat" where
  "argmin_scan best bv i [] = best"
| "argmin_scan best bv i (v # vs) =
     (if v < bv then argmin_scan i v (Suc i) vs else argmin_scan best bv (Suc i) vs)"

definition argmin :: "real list \<Rightarrow> error + nat" where
  "argmin vs = (case vs of [] \<Rightarrow> Inl ValueError | v # rest \<Rightarrow> Inr (argmin_scan 0 v 1 rest))"

text \<open>
  The local variables at the end of one iteration. \<open>sel_h\<close> and \<open>sel_v\<close> name the
  two values of \<^verbatim>\<open>np.argmin\<close>; \<open>x_nudged\<close> and \<open>y_nudged\<close> are \<^verbatim>\<open>x\<close> and
  \<^verbatim>\<open>y\<close> after their reassignment. A \<^verbatim>\<open>dict\<close> is an association list.
\<close>

record locals =
  dx_arr :: "real list"
  dy_arr :: "real list"
  sel_h :: nat
  sel_v :: nat
  this_dx :: real
  this_dy :: real
  horizontalalignment :: pyval
  verticalalignment :: pyval
  x_nudged :: real
  y_nudged :: real
  annot :: "(string \<times> pyval) list"

definition label_step :: "embedding \<Rightarrow> nat \<Rightarrow> string \<Rightarrow> int \<Rightarrow> real \<Rightarrow> real \<Rightarrow> error + locals" where
  "label_step embedding index name label x y =
     bind_err (displacement x (fst embedding) index) (\<lambda>dx.
     bind_err (displacement y (snd embedding) index) (\<lambda>dy.
     bind_err (argmin (map abs dy)) (\<lambda>kh.
     bind_err (getitem dx kh) (\<lambda>tdx.
     bind_err (argmin (map abs dx)) (\<lambda>kv.
     bind_err (getitem dy kv) (\<lambda>tdy.
       let (ha, xn) = (if tdx > 0 then (Str ''left'', x + 2 / 1000)
                       else (Str ''right'', x - 2 / 1000));
           (va, yn) = (if tdy > 0 then (Str ''bottom'', y + 2 / 1000)
                       else (Tuple [Str ''top''], y - 2 / 1000))
       in Inr \<lparr>dx_arr = dx, dy_arr = dy, sel_h = kh, sel_v = kv,
               this_dx = tdx, this_dy = tdy,
               horizontalalignment = ha, verticalalignment = va,
               x_nudged = xn, y_nudged = yn,
               annot = [(''x'', Num xn), (''y'', Num yn), (''text'', Str name),
                        (''showarrow'', Bool False)]\<rparr>))))))"

fun annotations_loop :: "embedding \<Rightarrow> (nat \<times> string \<times> int \<times> real \<times> real) list \<Rightarrow> (string \<times> pyval) list list \<Rightarrow> error + (string \<times> pyval) list list" where
  "annotations_loop embedding [] annotations = Inr annotations"
| "annotations_loop embedding ((index, name, label, x, y) # rest) annotations =
     bind_err (label_step embedding index name label x y) (\<lambda>st.
       annotations_loop embedding rest (annotations @ [annot st]))"

definition annotations_of :: "embedding \<Rightarrow> string list \<Rightarrow> int list \<Rightarrow> error + (string \<times> pyval) list list" where
  "annotations_of embedding names labels =
     annotations_loop embedding
       (enumerate 0 (zip names (zip labels (zip (fst embedding) (snd embedding))))) []"

section \<open>Properties\<close>

subsection \<open>Helper lemmas\<close>

text \<open>Rounding to binary64.\<close>

lemma rne_cases:
  "rne m = \<lfloor>m\<rfloor> \<or> rne m = \<lfloor>m\<rfloor> + 1"
  by (simp add: rne_def Let_def)

lemma rne_error: "\<bar>of_int (rne m) - m\<bar> \<le> 1 / 2"
proof -
  have f: "of_int \<lfloor>m\<rfloor> \<le> m" "m < of_int \<lfloor>m\<rfloor> + 1" by linarith+
  show ?thesis
  proof (cases "m - of_int \<lfloor>m\<rfloor> < 1 / 2")
    case True
    then have "rne m = \<lfloor>m\<rfloor>" by (simp add: rne_def Let_def)
    then show ?thesis using f True by simp
  next
    case False
    show ?thesis
    proof (cases "1 / 2 < m - of_int \<lfloor>m\<rfloor>")
      case True
      then have "rne m = \<lfloor>m\<rfloor> + 1" using False by (simp add: rne_def Let_def)
      then show ?thesis using f True by simp
    next
      case nt: False
      then have h: "m - of_int \<lfloor>m\<rfloor> = 1 / 2" using False by simp
      from rne_cases [of m] show ?thesis
      proof
        assume "rne m = \<lfloor>m\<rfloor>" then show ?thesis using h by simp
      next
        assume "rne m = \<lfloor>m\<rfloor> + 1" then show ?thesis using h by simp
      qed
    qed
  qed
qed

lemma rne_of_int: "rne (of_int z) = z"
  by (simp add: rne_def)

lemma rne_ge: "of_int a \<le> m \<Longrightarrow> a \<le> rne m"
proof -
  assume "of_int a \<le> m"
  then have "a \<le> \<lfloor>m\<rfloor>" by (simp add: le_floor_iff)
  then show ?thesis using rne_cases [of m] by auto
qed

lemma rne_le: "m \<le> of_int b \<Longrightarrow> rne m \<le> b"
proof -
  assume mb: "m \<le> of_int b"
  then have fb: "\<lfloor>m\<rfloor> \<le> b" by (simp add: floor_le_iff) 
  show ?thesis
  proof (cases "m = of_int b")
    case True
    then show ?thesis by (simp add: rne_of_int)
  next
    case False
    then have "m < of_int b" using mb by simp
    then have "\<lfloor>m\<rfloor> < b" by (simp add: floor_less_iff)
    then show ?thesis using rne_cases [of m] by auto
  qed
qed

lemma rne_tie_even:
  assumes "of_int a \<le> m" "m \<le> of_int a + 1 / 2" "even a"
  shows "rne m = a"
proof -
  have f: "\<lfloor>m\<rfloor> = a" using assms by linarith
  have "m - of_int a \<le> 1 / 2" using assms by simp
  then show ?thesis unfolding rne_def Let_def f using assms(3) by auto
qed

lemma floor_log2_bounds:
  assumes "0 < x"
  shows "2 powr of_int \<lfloor>log 2 x\<rfloor> \<le> x" and "x < 2 powr (of_int \<lfloor>log 2 x\<rfloor> + 1)"
proof -
  have "of_int \<lfloor>log 2 x\<rfloor> \<le> log 2 x" by simp
  then show "2 powr of_int \<lfloor>log 2 x\<rfloor> \<le> x" using assms by (simp add: powr_le_iff)
  have "log 2 x < of_int \<lfloor>log 2 x\<rfloor> + 1" by linarith
  then show "x < 2 powr (of_int \<lfloor>log 2 x\<rfloor> + 1)" using assms by (simp add: less_powr_iff)
qed

lemma floor_log2_eq:
  assumes "0 < x" "2 powr of_int e \<le> x" "x < 2 powr (of_int e + 1)"
  shows "\<lfloor>log 2 x\<rfloor> = e"
proof -
  have "of_int e \<le> log 2 x" using assms by (simp add: powr_le_iff)
  moreover have "log 2 x < of_int e + 1" using assms by (simp add: less_powr_iff)
  ultimately show ?thesis by linarith
qed

lemma f64_round_unfold:
  assumes "x \<noteq> 0"
  shows "f64_round x = of_int (rne (x / 2 powr (of_int (f64_exponent x) - 52)))
                         * 2 powr (of_int (f64_exponent x) - 52)"
  using assms by (simp add: f64_round_def)

lemma f64_round_half_ulp:
  "\<bar>f64_round x - x\<bar> \<le> 2 powr (of_int (f64_exponent x) - 52) / 2"
proof (cases "x = 0")
  case True
  then show ?thesis by (simp add: f64_round_def)
next
  case False
  let ?u = "(2::real) powr (of_int (f64_exponent x) - 52)"
  have u: "0 < ?u" by simp
  have "f64_round x - x = (of_int (rne (x / ?u)) - x / ?u) * ?u"
    using u by (simp add: f64_round_unfold [OF False] algebra_simps)
  then have "\<bar>f64_round x - x\<bar> = \<bar>of_int (rne (x / ?u)) - x / ?u\<bar> * ?u"
    using u by (simp add: abs_mult)
  also have "\<dots> \<le> (1 / 2) * ?u"
    by (rule mult_right_mono [OF rne_error]) simp
  finally show ?thesis by simp
qed

lemma f64_exponent_normal:
  assumes "2 powr (- 1022) \<le> \<bar>x\<bar>"
  shows "f64_exponent x = \<lfloor>log 2 \<bar>x\<bar>\<rfloor>"
proof -
  have pos: "0 < \<bar>x\<bar>" using assms by (smt (verit) powr_gt_zero)
  have "of_int (- 1022) \<le> log 2 \<bar>x\<bar>" using assms pos by (simp add: powr_le_iff)
  then have "- 1022 \<le> \<lfloor>log 2 \<bar>x\<bar>\<rfloor>" by (simp add: le_floor_iff)
  then show ?thesis by (simp add: f64_exponent_def)
qed

lemma f64_round_rel_error:
  assumes "2 powr (- 1022) \<le> \<bar>x\<bar>"
  shows "\<bar>f64_round x - x\<bar> \<le> \<bar>x\<bar> / 2 ^ 53"
proof -
  have pos: "0 < \<bar>x\<bar>" using assms by (smt (verit) powr_gt_zero)
  let ?e = "\<lfloor>log 2 \<bar>x\<bar>\<rfloor>"
  have e: "f64_exponent x = ?e" by (rule f64_exponent_normal [OF assms])
  have le: "2 powr of_int ?e \<le> \<bar>x\<bar>" by (rule floor_log2_bounds(1) [OF pos])
  have "(2::real) powr (of_int ?e - 52) / 2 = 2 powr of_int ?e / 2 ^ 53"
    by (simp add: powr_diff)
  also have "\<dots> \<le> \<bar>x\<bar> / 2 ^ 53" using le by (simp add: divide_right_mono)
  finally show ?thesis using f64_round_half_ulp [of x] unfolding e by linarith
qed

lemma f64_exponent_le:
  assumes "x \<noteq> 0" "\<bar>x\<bar> < 2 powr (of_int b + 1)" "- 1022 \<le> b"
  shows "f64_exponent x \<le> b"
proof -
  have pos: "0 < \<bar>x\<bar>" using assms by simp
  have "log 2 \<bar>x\<bar> < of_int b + 1" using assms pos by (simp add: less_powr_iff)
  then have "\<lfloor>log 2 \<bar>x\<bar>\<rfloor> \<le> b" by linarith
  then show ?thesis using assms(3) by (simp add: f64_exponent_def)
qed

lemma f64_round_abs_error:
  assumes "\<bar>x\<bar> < 2"
  shows "\<bar>f64_round x - x\<bar> \<le> 1 / 2 ^ 53"
proof (cases "x = 0")
  case True
  then show ?thesis by (simp add: f64_round_def)
next
  case False
  have "f64_exponent x \<le> 0"
    by (rule f64_exponent_le [OF False]) (use assms in simp_all)
  then have "(2::real) powr (of_int (f64_exponent x) - 52) \<le> 2 powr (- 52)"
    by simp
  also have "\<dots> = 1 / 2 ^ 52" by (simp add: powr_minus_divide)
  finally have "(2::real) powr (of_int (f64_exponent x) - 52) / 2 \<le> 1 / 2 ^ 53" by simp
  then show ?thesis using f64_round_half_ulp [of x] by linarith
qed

lemma f64_round_nonneg:
  assumes "0 \<le> x"
  shows "0 \<le> f64_round x"
proof (cases "x = 0")
  case True
  then show ?thesis by (simp add: f64_round_def)
next
  case False
  let ?u = "(2::real) powr (of_int (f64_exponent x) - 52)"
  have "of_int 0 \<le> x / ?u" using assms by simp
  then have "0 \<le> rne (x / ?u)" by (rule rne_ge)
  then show ?thesis by (simp add: f64_round_unfold [OF False])
qed

lemma f64_round_scaled:
  assumes "2 ^ 52 \<le> \<bar>x\<bar> * 2 ^ s" "\<bar>x\<bar> * 2 ^ s < 2 ^ 53" "s \<le> 1074"
  shows "f64_round x = of_int (rne (x * 2 ^ s)) / 2 ^ s"
proof -
  have pos: "0 < \<bar>x\<bar>"
  proof (rule ccontr)
    assume "\<not> 0 < \<bar>x\<bar>"
    then have "\<bar>x\<bar> * 2 ^ s = 0" by simp
    then show False using assms(1) by simp
  qed
  then have nz: "x \<noteq> 0" by auto
  let ?e = "52 - int s"
  have p: "(2::real) powr of_int ?e = 2 ^ 52 / 2 ^ s"
    by (simp add: powr_diff powr_realpow)
  have p1: "(2::real) powr (of_int ?e + 1) = 2 ^ 53 / 2 ^ s"
    by (simp add: powr_diff powr_add powr_realpow)
  have lo: "2 powr of_int ?e \<le> \<bar>x\<bar>"
    unfolding p using assms(1) by (simp add: pos_divide_le_eq)
  have hi: "\<bar>x\<bar> < 2 powr (of_int ?e + 1)"
    unfolding p1 using assms(2) by (simp add: pos_less_divide_eq)
  have fl: "\<lfloor>log 2 \<bar>x\<bar>\<rfloor> = ?e" by (rule floor_log2_eq [OF pos lo hi])
  have ex: "f64_exponent x = ?e" unfolding f64_exponent_def fl using assms(3) by simp
  have u: "(2::real) powr (of_int ?e - 52) = 1 / 2 ^ s"
    by (simp add: powr_minus_divide powr_realpow)
  show ?thesis unfolding f64_round_unfold [OF nz] ex u by simp
qed

lemma f64_round_of_int:
  assumes "\<bar>z\<bar> < 2 ^ 53"
  shows "f64_round (of_int z) = of_int z"
proof (cases "z = 0")
  case True
  then show ?thesis by (simp add: f64_round_def)
next
  case False
  let ?x = "real_of_int z"
  have nz: "?x \<noteq> 0" using False by simp
  have ge1: "1 \<le> \<bar>?x\<bar>" using False by (simp flip: of_int_abs) 
  have "2 powr (- 1022) \<le> (1::real)" by (simp add: powr_minus_divide)
  then have norm: "2 powr (- 1022) \<le> \<bar>?x\<bar>" using ge1 by linarith
  let ?e = "\<lfloor>log 2 \<bar>?x\<bar>\<rfloor>"
  have ex: "f64_exponent ?x = ?e" by (rule f64_exponent_normal [OF norm])
  have "0 \<le> log 2 \<bar>?x\<bar>" using ge1 by simp
  then have e0: "0 \<le> ?e" by simp
  have "\<bar>?x\<bar> < 2 ^ 53" using assms by (simp flip: of_int_abs add: of_int_less_numeral_power_cancel_iff) 
  then have "\<bar>?x\<bar> < 2 powr 53" by (simp add: powr_realpow [symmetric])
  then have "log 2 \<bar>?x\<bar> < 53" using ge1 by (simp add: less_powr_iff [symmetric])
  then have e52: "?e \<le> 52" by linarith
  define k where "k = nat (52 - ?e)"
  have k: "of_int ?e - 52 = - real k" using e52 by (simp add: k_def)
  have u: "(2::real) powr (of_int ?e - 52) = 1 / 2 ^ k"
    unfolding k by (simp add: powr_minus_divide powr_realpow)
  have "?x / (1 / 2 ^ k) = of_int (z * 2 ^ k)" by simp
  then have "rne (?x / (1 / 2 ^ k)) = z * 2 ^ k" by (simp only: rne_of_int)
  then show ?thesis unfolding f64_round_unfold [OF nz] ex u by simp
qed

lemma f64_round_le_one:
  assumes "0 \<le> x" "x \<le> 1 + 1 / 2 ^ 53"
  shows "f64_round x \<le> 1"
proof (cases "x = 0")
  case True
  then show ?thesis by (simp add: f64_round_def)
next
  case nz: False
  show ?thesis
  proof (cases "x < 1")
    case True
    let ?E = "f64_exponent x"
    let ?u = "(2::real) powr (of_int ?E - 52)"
    have "\<bar>x\<bar> < 2 powr (of_int (- 1) + 1)" using True assms by simp
    then have E: "?E \<le> - 1" by (rule f64_exponent_le [OF nz]) simp
    have pos: "0 < \<bar>x\<bar>" using nz by simp
    have "\<lfloor>log 2 \<bar>x\<bar>\<rfloor> \<le> ?E" by (simp add: f64_exponent_def)
    then have "of_int \<lfloor>log 2 \<bar>x\<bar>\<rfloor> + 1 \<le> (of_int ?E + 1 :: real)" by simp
    then have m: "(2::real) powr (of_int \<lfloor>log 2 \<bar>x\<bar>\<rfloor> + 1) \<le> 2 powr (of_int ?E + 1)"
      by (intro powr_mono) simp_all
    have ax: "\<bar>x\<bar> = x" using assms(1) by simp
    have "\<bar>x\<bar> < 2 powr (of_int \<lfloor>log 2 \<bar>x\<bar>\<rfloor> + 1)"
      by (rule floor_log2_bounds(2) [OF pos])
    then have xlt: "x < 2 powr (of_int ?E + 1)"
      using m unfolding ax by linarith
    have "2 powr (of_int ?E + 1) = ?u * 2 ^ 53"
      by (simp add: powr_diff powr_add)
    then have "x / ?u \<le> of_int (2 ^ 53)" using xlt by (simp add: pos_divide_le_eq mult.commute)
    then have "rne (x / ?u) \<le> 2 ^ 53" by (rule rne_le)
    then have "of_int (rne (x / ?u)) \<le> (2 ^ 53 :: real)"
      by (metis of_int_le_iff of_int_numeral of_int_power)
    then have "f64_round x \<le> 2 ^ 53 * ?u"
      unfolding f64_round_unfold [OF nz] by (simp add: mult_right_mono)
    also have "\<dots> = 2 powr (of_int ?E + 1)" by (simp add: powr_diff powr_add)
    also have "\<dots> \<le> 2 powr 0" using E by (simp del: powr_zero_eq_one)
    finally show ?thesis by simp
  next
    case False
    then have x1: "1 \<le> x" by simp
    have s: "f64_round x = of_int (rne (x * 2 ^ 52)) / 2 ^ 52"
      by (rule f64_round_scaled) (use x1 assms in simp_all)
    have "rne (x * 2 ^ 52) = 2 ^ 52"
      by (rule rne_tie_even) (use x1 assms in simp_all)
    then show ?thesis unfolding s by simp
  qed
qed

lemma f64_round_separated:
  assumes "0 \<le> a" "b < 2" "1 / 2 ^ 52 < b - a"
  shows "f64_round a < f64_round b"
proof -
  have a: "\<bar>a\<bar> < 2" and b: "\<bar>b\<bar> < 2" using assms by simp_all
  have ea: "\<bar>f64_round a - a\<bar> \<le> 1 / 2 ^ 53" by (rule f64_round_abs_error [OF a])
  have eb: "\<bar>f64_round b - b\<bar> \<le> 1 / 2 ^ 53" by (rule f64_round_abs_error [OF b])
  have "(1::real) / 2 ^ 52 = 1 / 2 ^ 53 + 1 / 2 ^ 53" by simp
  then show ?thesis using ea eb assms(3) by linarith
qed

lemma f64_of_int_exact: "\<bar>z\<bar> < 2 ^ 53 \<Longrightarrow> f64_of_int z = of_int z"
  unfolding f64_of_int_def by (rule f64_round_of_int)



lemma f64_round_zero: "f64_round 0 = 0"
  by (simp add: f64_round_def)

lemma f64_round_one: "f64_round 1 = 1"
  using f64_round_of_int [of 1] by simp




text \<open>The loops of the model.\<close>

lemma fold_append_map:
  "fold (\<lambda>k acc. acc @ [f k]) ks acc0 = acc0 @ map f ks"
  by (induction ks arbitrary: acc0) simp_all

lemma matplotlib_to_plotly_Inr:
  "pl_entries \<noteq> 1 \<Longrightarrow>
   matplotlib_to_plotly cmap pl_entries =
     Inr (map (colorscale_entry cmap (f64_round (1 / f64_of_int (pl_entries - 1))))
            [0..pl_entries - 1])"
  by (simp add: matplotlib_to_plotly_def fold_append_map Let_def)

lemma fst_colorscale_entry:
  "fst (colorscale_entry cmap h k) = f64_round (f64_of_int k * h)"
  by (simp add: colorscale_entry_def Let_def)

lemma argmin_scan_inv:
  assumes "best < length pre" "bv = pre ! best"
    and "\<forall>j < length pre. bv \<le> pre ! j" "\<forall>j < best. bv < pre ! j" "i = length pre"
  shows "argmin_scan best bv i vs < length (pre @ vs)
       \<and> (\<forall>j < length (pre @ vs). (pre @ vs) ! argmin_scan best bv i vs \<le> (pre @ vs) ! j)
       \<and> (\<forall>j < argmin_scan best bv i vs. (pre @ vs) ! argmin_scan best bv i vs < (pre @ vs) ! j)"
  using assms
proof (induction vs arbitrary: pre best bv i)
  case Nil
  then show ?case by simp
next
  case (Cons v vs)
  let ?pre = "pre @ [v]"
  have app: "?pre @ vs = pre @ v # vs" by simp
  show ?case
  proof (cases "v < bv")
    case True
    have 1: "i < length ?pre" using Cons.prems by simp
    have 2: "v = ?pre ! i" using Cons.prems by simp
    have 3: "\<forall>j < length ?pre. v \<le> ?pre ! j"
    proof (intro allI impI)
      fix j assume "j < length ?pre"
      then consider "j < length pre" | "j = length pre" by fastforce
      then show "v \<le> ?pre ! j"
      proof cases
        case 1
        then have "bv \<le> pre ! j" using Cons.prems by blast
        then show ?thesis using True 1 by (simp add: nth_append)
      next
        case 2
        then show ?thesis by simp
      qed
    qed
    have 4: "\<forall>j < i. v < ?pre ! j"
    proof (intro allI impI)
      fix j assume "j < i"
      then have j: "j < length pre" using Cons.prems by simp
      then have "bv \<le> pre ! j" using Cons.prems by blast
      then show "v < ?pre ! j" using True j by (simp add: nth_append)
    qed
    have 5: "Suc i = length ?pre" using Cons.prems by simp
    from Cons.IH [OF 1 2 3 4 5] show ?thesis using True unfolding app by simp
  next
    case False
    have 1: "best < length ?pre" using Cons.prems by simp
    have 2: "bv = ?pre ! best" using Cons.prems by (simp add: nth_append)
    have 3: "\<forall>j < length ?pre. bv \<le> ?pre ! j"
    proof (intro allI impI)
      fix j assume "j < length ?pre"
      then consider "j < length pre" | "j = length pre" by fastforce
      then show "bv \<le> ?pre ! j"
      proof cases
        case 1
        then show ?thesis using Cons.prems by (simp add: nth_append)
      next
        case 2
        then show ?thesis using False by simp
      qed
    qed
    have 4: "\<forall>j < best. bv < ?pre ! j"
      using Cons.prems by (simp add: nth_append)
    have 5: "Suc i = length ?pre" using Cons.prems by simp
    from Cons.IH [OF 1 2 3 4 5] show ?thesis using False unfolding app by simp
  qed
qed

lemma argmin_spec:
  assumes "xs \<noteq> []"
  shows "\<exists>k. argmin xs = Inr k \<and> k < length xs
           \<and> (\<forall>j < length xs. xs ! k \<le> xs ! j) \<and> (\<forall>j < k. xs ! k < xs ! j)"
proof -
  from assms obtain v rest where xs: "xs = v # rest" by (cases xs) auto
  have "argmin_scan 0 v 1 rest < length ([v] @ rest)
       \<and> (\<forall>j < length ([v] @ rest). ([v] @ rest) ! argmin_scan 0 v 1 rest \<le> ([v] @ rest) ! j)
       \<and> (\<forall>j < argmin_scan 0 v 1 rest. ([v] @ rest) ! argmin_scan 0 v 1 rest < ([v] @ rest) ! j)"
    by (rule argmin_scan_inv) simp_all
  then show ?thesis unfolding xs by (simp add: argmin_def)
qed


lemma displacement_Inr:
  "index < length row \<Longrightarrow> displacement c row index = Inr ((map (\<lambda>e. c - e) row)[index := 1])"
  by (simp add: displacement_def)

lemma label_step_Inr:
  fixes x y :: real and xs ys :: "real list"
  assumes idx: "index < length xs" and len: "length ys = length xs"
  defines "dx \<equiv> (map (\<lambda>e. x - e) xs)[index := 1]"
    and "dy \<equiv> (map (\<lambda>e. y - e) ys)[index := 1]"
  shows "\<exists>kh kv. argmin (map abs dy) = Inr kh \<and> kh < length xs
           \<and> argmin (map abs dx) = Inr kv \<and> kv < length xs
           \<and> label_step (xs, ys) index name label x y =
               Inr \<lparr>dx_arr = dx, dy_arr = dy, sel_h = kh, sel_v = kv,
                    this_dx = dx ! kh, this_dy = dy ! kv,
                    horizontalalignment = (if dx ! kh > 0 then Str ''left'' else Str ''right''),
                    verticalalignment = (if dy ! kv > 0 then Str ''bottom'' else Tuple [Str ''top'']),
                    x_nudged = (if dx ! kh > 0 then x + 2 / 1000 else x - 2 / 1000),
                    y_nudged = (if dy ! kv > 0 then y + 2 / 1000 else y - 2 / 1000),
                    annot = [(''x'', Num (if dx ! kh > 0 then x + 2 / 1000 else x - 2 / 1000)),
                             (''y'', Num (if dy ! kv > 0 then y + 2 / 1000 else y - 2 / 1000)),
                             (''text'', Str name), (''showarrow'', Bool False)]\<rparr>"
proof -
  have ldx: "length dx = length xs" and ldy: "length dy = length xs"
    by (simp_all add: dx_def dy_def len)
  have "map abs dy \<noteq> []" using idx ldy by auto
  from argmin_spec [OF this] obtain kh where kh: "argmin (map abs dy) = Inr kh" "kh < length xs"
    using ldy by auto
  have "map abs dx \<noteq> []" using idx ldx by auto
  from argmin_spec [OF this] obtain kv where kv: "argmin (map abs dx) = Inr kv" "kv < length xs"
    using ldx by auto
  have d1: "displacement x xs index = Inr dx"
    unfolding dx_def by (rule displacement_Inr [OF idx])
  have d2: "displacement y ys index = Inr dy"
    unfolding dy_def by (rule displacement_Inr) (simp add: idx len)
  have g1: "getitem dx kh = Inr (dx ! kh)" using kh ldx by (simp add: getitem_def)
  have g2: "getitem dy kv = Inr (dy ! kv)" using kv ldy by (simp add: getitem_def)
  have "label_step (xs, ys) index name label x y =
               Inr \<lparr>dx_arr = dx, dy_arr = dy, sel_h = kh, sel_v = kv,
                    this_dx = dx ! kh, this_dy = dy ! kv,
                    horizontalalignment = (if dx ! kh > 0 then Str ''left'' else Str ''right''),
                    verticalalignment = (if dy ! kv > 0 then Str ''bottom'' else Tuple [Str ''top'']),
                    x_nudged = (if dx ! kh > 0 then x + 2 / 1000 else x - 2 / 1000),
                    y_nudged = (if dy ! kv > 0 then y + 2 / 1000 else y - 2 / 1000),
                    annot = [(''x'', Num (if dx ! kh > 0 then x + 2 / 1000 else x - 2 / 1000)),
                             (''y'', Num (if dy ! kv > 0 then y + 2 / 1000 else y - 2 / 1000)),
                             (''text'', Str name), (''showarrow'', Bool False)]\<rparr>"
    by (simp add: label_step_def d1 d2 kh kv g1 g2 bind_err_def)
  then show ?thesis using kh kv by blast
qed


subsection \<open>The colour-scale helper\<close>




subsection \<open>The colour-scale helper: positions\<close>

lemma step_bounds:
  fixes n :: int
  assumes n1: "1 \<le> n" and nb: "n \<le> 2 ^ 51"
  defines "h \<equiv> f64_round (1 / f64_of_int n)"
  shows "1 / 2 ^ 52 < h" and "of_int n * h \<le> 1 + 1 / 2 ^ 53" and "0 < h"
proof -
  let ?n = "real_of_int n"
  have npos: "0 < ?n" using n1 by simp
  have nle: "?n \<le> 2 ^ 51" using nb by (metis of_int_le_iff of_int_numeral of_int_power)
  have "\<bar>n\<bar> < 2 ^ 53" using n1 nb by simp
  then have conv: "f64_of_int n = ?n" by (rule f64_of_int_exact)
  have h: "h = f64_round (1 / ?n)" unfolding h_def conv ..
  have inv: "1 / 2 ^ 51 \<le> 1 / ?n" using npos nle by (simp add: frac_le)
  have "(2::real) powr (- 1022) \<le> 2 powr (- 51)" by (intro powr_mono) simp_all
  also have "\<dots> = 1 / 2 ^ 51" by (simp add: powr_minus_divide)
  finally have small: "(2::real) powr (- 1022) \<le> 1 / 2 ^ 51" .
  have ab: "\<bar>1 / ?n\<bar> = 1 / ?n" using npos by simp
  have "2 powr (- 1022) \<le> \<bar>1 / ?n\<bar>" unfolding ab using small inv by linarith
  from f64_round_rel_error [OF this]
  have err: "\<bar>h - 1 / ?n\<bar> \<le> (1 / ?n) / 2 ^ 53" unfolding h ab .
  then have lo: "(1 / ?n) * (1 - 1 / 2 ^ 53) \<le> h" and hi: "h \<le> (1 / ?n) * (1 + 1 / 2 ^ 53)"
    by (simp_all add: abs_le_iff algebra_simps)
  have "(1 / 2 ^ 51) * (1 - 1 / 2 ^ 53) \<le> (1 / ?n) * (1 - 1 / 2 ^ 53)"
    by (rule mult_right_mono [OF inv]) simp
  moreover have "(1::real) / 2 ^ 52 < (1 / 2 ^ 51) * (1 - 1 / 2 ^ 53)" by simp
  ultimately show gt: "1 / 2 ^ 52 < h" using lo by linarith
  have "?n * h \<le> ?n * ((1 / ?n) * (1 + 1 / 2 ^ 53))"
    by (rule mult_left_mono [OF hi]) (use npos in simp)
  also have "\<dots> = 1 + 1 / 2 ^ 53" using npos by simp
  finally show "of_int n * h \<le> 1 + 1 / 2 ^ 53" .
  show "0 < h" using gt by (smt (verit) zero_less_divide_1_iff zero_less_numeral zero_less_power)
qed


text \<open>
  Claim C7, as stated: for every sampling count \<open>N > 1\<close> the helper returns exactly \<open>N\<close>
  pairs whose positions are \<open>k / (N - 1)\<close> for \<open>k = 0 .. N - 1\<close>.
  The statement fails at the notebook's own sampling count \<open>N = 500\<close>: the step is the
  rounded quotient \<open>1.0 / 499\<close>, the position of the last stop is the rounded product
  of \<open>499\<close> and the step, which is \<open>1 - 2\<^sup>-\<^sup>5\<^sup>3\<close> (printed \<^verbatim>\<open>0.9999999999999999\<close>),
  and not \<open>499 / 499\<close>.
\<close>

theorem C7_counterexample:
  "\<not> isl (matplotlib_to_plotly grey_ramp 500)
   \<and> fst (projr (matplotlib_to_plotly grey_ramp 500) ! 499)
        = 9007199254740991 / 9007199254740992
   \<and> (9007199254740991 / 9007199254740992 :: real) \<noteq> 499 / (500 - 1)"
proof -
  have ne: "(500::int) \<noteq> 1" by simp
  have conv: "f64_of_int 499 = 499" using f64_of_int_exact [of 499] by simp
  have h: "f64_round (1 / 499) = 4620927874175739 / 2 ^ 61"
  proof -
    have "f64_round (1 / 499) = of_int (rne (1 / 499 * 2 ^ 61)) / 2 ^ 61"
      by (rule f64_round_scaled) simp_all
    moreover have "rne (1 / 499 * 2 ^ 61) = 4620927874175739"
      by (simp add: rne_def Let_def)
    ultimately show ?thesis by simp
  qed
  have p: "f64_round (499 * (4620927874175739 / 2 ^ 61)) = 9007199254740991 / 2 ^ 53"
  proof -
    have "f64_round (499 * (4620927874175739 / 2 ^ 61))
            = of_int (rne (499 * (4620927874175739 / 2 ^ 61) * 2 ^ 53)) / 2 ^ 53"
      by (rule f64_round_scaled) simp_all
    moreover have "rne (499 * (4620927874175739 / 2 ^ 61) * 2 ^ 53) = 9007199254740991"
      by (simp add: rne_def Let_def)
    ultimately show ?thesis by simp
  qed
  have res: "matplotlib_to_plotly grey_ramp 500 =
               Inr (map (colorscale_entry grey_ramp (f64_round (1 / f64_of_int (500 - 1))))
                      [0..500 - 1])"
    by (rule matplotlib_to_plotly_Inr [OF ne])
  have nth: "[0..500 - 1] ! 499 = (0::int) + int 499" by (rule nth_upto) simp
  have "fst (projr (matplotlib_to_plotly grey_ramp 500) ! 499)
          = f64_round (f64_of_int 499 * f64_round (1 / f64_of_int 499))"
    unfolding res using nth by (simp add: fst_colorscale_entry)
  also have "\<dots> = 9007199254740991 / 9007199254740992"
    unfolding conv h p by simp
  finally have last: "fst (projr (matplotlib_to_plotly grey_ramp 500) ! 499)
          = 9007199254740991 / 9007199254740992" .
  have "\<not> isl (matplotlib_to_plotly grey_ramp 500)" unfolding res by simp
  then show ?thesis using last by simp
qed

text \<open>
  Claim C7, amended: for every sampling count \<open>N\<close> with \<open>1 < N \<le> 2\<^sup>5\<^sup>1 + 1\<close> the helper
  returns exactly \<open>N\<close> (position, colour-string) pairs; the position of the \<open>k\<close>-th pair
  is the binary64 product of \<open>k\<close> and the step, the step being the binary64 quotient
  \<open>1.0 / (N - 1)\<close> (so it is \<open>k / (N - 1)\<close> up to rounding only); the positions increase
  strictly and lie in \<open>[0, 1]\<close>; for \<open>N = 2\<close> the two positions are exactly \<open>0\<close> and \<open>1\<close>.
\<close>

theorem C7_amended:
  assumes N1: "1 < N" and Nb: "N \<le> 2 ^ 51 + 1"
  shows "\<exists>stops. matplotlib_to_plotly cmap N = Inr stops
           \<and> length stops = nat N
           \<and> (\<forall>k < nat N. fst (stops ! k)
                  = f64_round (f64_of_int (int k) * f64_round (1 / f64_of_int (N - 1))))
           \<and> sorted_wrt (<) (map fst stops)
           \<and> (\<forall>p \<in> set (map fst stops). 0 \<le> p \<and> p \<le> 1)
           \<and> (N = 2 \<longrightarrow> map fst stops = [0, 1])"
proof -
  let ?h = "f64_round (1 / f64_of_int (N - 1))"
  let ?stops = "map (colorscale_entry cmap ?h) [0..N - 1]"
  have ne: "N \<noteq> 1" using N1 by simp
  have n1: "1 \<le> N - 1" and nb: "N - 1 \<le> 2 ^ 51" using N1 Nb by simp_all
  note sb = step_bounds [OF n1 nb]
  have eq: "matplotlib_to_plotly cmap N = Inr ?stops"
    by (rule matplotlib_to_plotly_Inr [OF ne])
  have len: "length ?stops = nat N" by simp
  have pos: "fst (?stops ! k) = f64_round (f64_of_int (int k) * ?h)" if "k < nat N" for k
  proof -
    have "[0..N - 1] ! k = 0 + int k" using that by (intro nth_upto) linarith
    then show ?thesis using that by (simp add: fst_colorscale_entry)
  qed
  have val: "fst (?stops ! k) = f64_round (real k * ?h)" if "k < nat N" for k
  proof -
    have "\<bar>int k\<bar> < 2 ^ 53" using that Nb by simp
    then have "f64_of_int (int k) = of_int (int k)" by (rule f64_of_int_exact)
    then show ?thesis using pos [OF that] by simp
  qed
  have arg: "0 \<le> real k * ?h \<and> real k * ?h \<le> 1 + 1 / 2 ^ 53" if "k < nat N" for k
  proof -
    have kn: "real k \<le> real_of_int (N - 1)" using that by linarith
    have le: "real k * ?h \<le> real_of_int (N - 1) * ?h"
      by (rule mult_right_mono [OF kn]) (use sb(3) in simp)
    have up: "real k * ?h \<le> 1 + 1 / 2 ^ 53" by (rule order_trans [OF le sb(2)])
    have nn: "0 \<le> real k * ?h" by (rule mult_nonneg_nonneg) (use sb(3) in simp_all)
    show ?thesis using nn up by (rule conjI)
  qed
  have srt: "sorted_wrt (<) (map fst ?stops)"
    unfolding sorted_wrt_iff_nth_less
  proof (intro allI impI)
    fix i j assume ij: "i < j" "j < length (map fst ?stops)"
    then have jN: "j < nat N" and iN: "i < nat N" by simp_all
    have "real i + 1 \<le> real j" using ij(1) by linarith
    then have "(real i + 1) * ?h \<le> real j * ?h"
      by (rule mult_right_mono) (use sb(3) in simp)
    then have "real i * ?h + ?h \<le> real j * ?h" by (simp add: algebra_simps)
    then have gap: "1 / 2 ^ 52 < real j * ?h - real i * ?h"
      using sb(1) by linarith
    have a0: "0 \<le> real i * ?h" using arg [OF iN] by simp
    have "(1::real) + 1 / 2 ^ 53 < 2" by simp
    then have b2: "real j * ?h < 2" using arg [OF jN] by linarith
    have "f64_round (real i * ?h) < f64_round (real j * ?h)"
      by (rule f64_round_separated [OF a0 b2 gap])
    then show "map fst ?stops ! i < map fst ?stops ! j"
      using val [OF iN] val [OF jN] iN jN by simp
  qed
  have rng: "0 \<le> p \<and> p \<le> 1" if "p \<in> set (map fst ?stops)" for p
  proof -
    from that obtain k where k: "k < length (map fst ?stops)" "p = map fst ?stops ! k"
      by (metis in_set_conv_nth)
    then have kN: "k < nat N" by simp
    then have pk: "p = f64_round (real k * ?h)" using k val by simp
    have a: "0 \<le> real k * ?h" and b: "real k * ?h \<le> 1 + 1 / 2 ^ 53"
      using arg [OF kN] by (rule conjunct1, rule conjunct2)
    show ?thesis unfolding pk
      using f64_round_nonneg [OF a] f64_round_le_one [OF a b] by (rule conjI)
  qed
  have two: "map fst ?stops = [0, 1]" if "N = 2"
  proof -
    have u: "[0..N - 1] = [0, 1]" unfolding that by (simp add: upto.simps)
    have c0: "f64_of_int 0 = 0" and c1: "f64_of_int 1 = 1"
      using f64_of_int_exact [of 0] f64_of_int_exact [of 1] by simp_all
    have "map fst (map (colorscale_entry cmap (f64_round (1 / f64_of_int (N - 1)))) [0, 1]) = [0, 1]"
      unfolding that by (simp add: fst_colorscale_entry c0 c1 f64_round_zero f64_round_one)
    then show ?thesis unfolding u .
  qed
  show ?thesis
  proof (intro exI [of _ ?stops] conjI)
    show "matplotlib_to_plotly cmap N = Inr ?stops" by (rule eq)
    show "length ?stops = nat N" by (rule len)
    show "\<forall>k < nat N. fst (?stops ! k) = f64_round (f64_of_int (int k) * ?h)"
      using pos by blast
    show "sorted_wrt (<) (map fst ?stops)" by (rule srt)
    show "\<forall>p \<in> set (map fst ?stops). 0 \<le> p \<and> p \<le> 1" using rng by blast
    show "N = 2 \<longrightarrow> map fst ?stops = [0, 1]" using two by blast
  qed
qed

text \<open>The amended claim C7 at \<open>N = 2\<close> with the grey ramp: two stops, at \<open>0\<close> and at \<open>1\<close>.\<close>

theorem C7_amended_witness:
  "(1::int) < 2 \<and> (2::int) \<le> 2 ^ 51 + 1
   \<and> (\<exists>stops. matplotlib_to_plotly grey_ramp 2 = Inr stops
         \<and> length stops = 2 \<and> map fst stops = [0, 1])"
proof -
  have a: "(1::int) < 2" and b: "(2::int) \<le> 2 ^ 51 + 1" by simp_all
  from C7_amended [OF a b, of grey_ramp]
  have "\<exists>stops. matplotlib_to_plotly grey_ramp 2 = Inr stops
         \<and> length stops = 2 \<and> map fst stops = [0, 1]"
    by auto
  then show ?thesis using a b by simp
qed

subsection \<open>Label placement: which point is selected\<close>





subsection \<open>Label placement: direction and alignment\<close>




text \<open>
  Claim C6: the horizontal alignment is left, with \<open>x\<close> increased by a fixed constant,
  when the selected horizontal displacement is strictly positive, and right, with \<open>x\<close>
  decreased by the same constant, otherwise; the vertical alignment is bottom when the
  selected vertical displacement is strictly positive and top otherwise, with its own
  constant applied to \<open>y\<close>.
  The code at the points \<open>(0, 0)\<close> and \<open>(1/2, 1/2)\<close> with target \<open>0\<close>: the selected
  vertical displacement is \<open>-1/2\<close>, and the vertical alignment is bound to the
  one-element tuple \<^verbatim>\<open>('top',)\<close>, which is not the string \<^verbatim>\<open>'top'\<close>. The
  other three branches bind a string.
\<close>

theorem C6_top_branch_binds_tuple:
  "label_step ([0, 1 / 2], [0, 1 / 2]) 0 ''A'' 0 0 0 =
     Inr \<lparr>dx_arr = [1, - (1 / 2)], dy_arr = [1, - (1 / 2)], sel_h = 1, sel_v = 1,
          this_dx = - (1 / 2), this_dy = - (1 / 2),
          horizontalalignment = Str ''right'', verticalalignment = Tuple [Str ''top''],
          x_nudged = - (2 / 1000), y_nudged = - (2 / 1000),
          annot = [(''x'', Num (- (2 / 1000))), (''y'', Num (- (2 / 1000))),
                   (''text'', Str ''A''), (''showarrow'', Bool False)]\<rparr>
   \<and> Tuple [Str ''top''] \<noteq> Str ''top''"
  by (simp add: label_step_def displacement_def argmin_def getitem_def bind_err_def)

subsection \<open>Label placement: determinism and the emitted record\<close>

lemma label_step_fields:
  assumes "label_step E i name label x y = Inr st"
  shows "horizontalalignment st = (if this_dx st > 0 then Str ''left'' else Str ''right'')"
    and "verticalalignment st = (if this_dy st > 0 then Str ''bottom'' else Tuple [Str ''top''])"
    and "x_nudged st = (if this_dx st > 0 then x + 2 / 1000 else x - 2 / 1000)"
    and "y_nudged st = (if this_dy st > 0 then y + 2 / 1000 else y - 2 / 1000)"
    and "annot st = [(''x'', Num (x_nudged st)), (''y'', Num (y_nudged st)),
                     (''text'', Str name), (''showarrow'', Bool False)]"
  using assms
  by (auto simp: label_step_def bind_err_def split: sum.splits if_splits)




lemma annotations_loop_Inr:
  assumes "\<forall>item \<in> set items. case item of (index, name, label, x, y) \<Rightarrow>
             \<exists>st. label_step E index name label x y = Inr st"
  shows "annotations_loop E items acc =
           Inr (acc @ map (\<lambda>(index, name, label, x, y).
                             annot (projr (label_step E index name label x y))) items)"
  using assms
proof (induction items arbitrary: acc)
  case Nil
  then show ?case by simp
next
  case (Cons item items)
  obtain index name label x y where item: "item = (index, name, label, x, y)"
    by (cases item) auto
  from Cons.prems obtain st where st: "label_step E index name label x y = Inr st"
    unfolding item by auto
  have rest: "\<forall>item \<in> set items. case item of (index, name, label, x, y) \<Rightarrow>
             \<exists>st. label_step E index name label x y = Inr st"
    using Cons.prems by simp
  show ?case unfolding item
    by (simp add: st bind_err_def Cons.IH [OF rest])
qed

text \<open>
  Claim C9: for every instrument, the record appended to the list of annotations holds
  exactly the nudged \<open>x\<close>-coordinate, the nudged \<open>y\<close>-coordinate, the display name as
  text and \<^verbatim>\<open>showarrow=False\<close>; the two alignment values are not part of it; and
  where the selected vertical displacement is not positive, the vertical alignment
  variable is bound to a one-element tuple, not to the string \<^verbatim>\<open>'top'\<close>.
  The embedding is a two-row array, so its rows have one length; the loop runs over
  \<^verbatim>\<open>zip(names, labels, embedding.T)\<close>, that is over the shortest of the three.
\<close>

theorem C9_annotation_record:
  assumes len: "length ys = length xs"
  shows "\<exists>anns. annotations_of (xs, ys) names labels = Inr anns
          \<and> length anns = min (length names) (min (length labels) (length xs))
          \<and> (\<forall>k < length anns. \<exists>st.
                label_step (xs, ys) k (names ! k) (labels ! k) (xs ! k) (ys ! k) = Inr st
              \<and> anns ! k = [(''x'', Num (x_nudged st)), (''y'', Num (y_nudged st)),
                            (''text'', Str (names ! k)), (''showarrow'', Bool False)]
              \<and> map fst (anns ! k) = [''x'', ''y'', ''text'', ''showarrow'']
              \<and> x_nudged st = (if this_dx st > 0 then xs ! k + 2 / 1000 else xs ! k - 2 / 1000)
              \<and> y_nudged st = (if this_dy st > 0 then ys ! k + 2 / 1000 else ys ! k - 2 / 1000)
              \<and> (\<not> this_dy st > 0 \<longrightarrow>
                    verticalalignment st = Tuple [Str ''top'']
                  \<and> verticalalignment st \<noteq> Str ''top''))"
proof -
  let ?items = "enumerate 0 (zip names (zip labels (zip xs ys)))"
  let ?m = "min (length names) (min (length labels) (length xs))"
  let ?f = "\<lambda>(index, name, label, x, y). annot (projr (label_step (xs, ys) index name label x y))"
  have litems: "length ?items = ?m" using len by simp
  have item: "?items ! k = (k, names ! k, labels ! k, xs ! k, ys ! k)" if "k < ?m" for k
    using that len by (simp add: nth_enumerate_eq)
  have step: "\<exists>st. label_step (xs, ys) k (names ! k) (labels ! k) (xs ! k) (ys ! k) = Inr st"
    if "k < ?m" for k
  proof -
    have "k < length xs" using that by simp
    from label_step_Inr [OF this len] show ?thesis by blast
  qed
  have all: "\<forall>item \<in> set ?items. case item of (index, name, label, x, y) \<Rightarrow>
             \<exists>st. label_step (xs, ys) index name label x y = Inr st"
  proof
    fix it assume "it \<in> set ?items"
    then obtain k where k: "k < length ?items" "it = ?items ! k"
      by (metis in_set_conv_nth)
    then have km: "k < ?m" using litems by simp
    show "case it of (index, name, label, x, y) \<Rightarrow>
             \<exists>st. label_step (xs, ys) index name label x y = Inr st"
      unfolding k(2) item [OF km] using step [OF km] by simp
  qed
  have res: "annotations_of (xs, ys) names labels = Inr (map ?f ?items)"
    unfolding annotations_of_def using annotations_loop_Inr [OF all, of "[]"] by simp
  have each: "\<exists>st. label_step (xs, ys) k (names ! k) (labels ! k) (xs ! k) (ys ! k) = Inr st
              \<and> map ?f ?items ! k = [(''x'', Num (x_nudged st)), (''y'', Num (y_nudged st)),
                            (''text'', Str (names ! k)), (''showarrow'', Bool False)]
              \<and> map fst (map ?f ?items ! k) = [''x'', ''y'', ''text'', ''showarrow'']
              \<and> x_nudged st = (if this_dx st > 0 then xs ! k + 2 / 1000 else xs ! k - 2 / 1000)
              \<and> y_nudged st = (if this_dy st > 0 then ys ! k + 2 / 1000 else ys ! k - 2 / 1000)
              \<and> (\<not> this_dy st > 0 \<longrightarrow>
                    verticalalignment st = Tuple [Str ''top'']
                  \<and> verticalalignment st \<noteq> Str ''top'')"
    if "k < length (map ?f ?items)" for k
  proof -
    have km: "k < ?m" using that litems by simp
    from step [OF km] obtain st
      where st: "label_step (xs, ys) k (names ! k) (labels ! k) (xs ! k) (ys ! k) = Inr st"
      by blast
    have kl: "k < length ?items" using km litems by simp
    have "map ?f ?items ! k = ?f (?items ! k)" using kl by (rule nth_map)
    also have "\<dots> = annot st" unfolding item [OF km] by (simp add: st)
    finally have nk: "map ?f ?items ! k = annot st" .
    note f = label_step_fields [OF st]
    have va: "\<not> this_dy st > 0 \<longrightarrow>
                verticalalignment st = Tuple [Str ''top''] \<and> verticalalignment st \<noteq> Str ''top''"
      using f(2) by simp
    show ?thesis
      apply (rule exI [of _ st])
      unfolding nk using st f(3) f(4) f(5) va by simp
  qed
  show ?thesis
    apply (rule exI [of _ "map ?f ?items"])
    using res litems each by simp
qed

text \<open>Claim C9 for the two instruments at \<open>(0, 0)\<close> and \<open>(1/2, 1/2)\<close>.\<close>

theorem C9_annotation_record_witness:
  "length [0, 1 / 2 :: real] = length [0, 1 / 2 :: real]
   \<and> (\<exists>anns. annotations_of ([0, 1 / 2], [0, 1 / 2]) [''A'', ''B''] [0, 1] = Inr anns
         \<and> length anns = 2
         \<and> map fst (anns ! 0) = [''x'', ''y'', ''text'', ''showarrow'']
         \<and> map fst (anns ! 1) = [''x'', ''y'', ''text'', ''showarrow''])"
proof -
  have l: "length [0, 1 / 2 :: real] = length [0, 1 / 2 :: real]" by simp
  from C9_annotation_record [OF l, of "[''A'', ''B'']" "[0, 1]"]
  obtain anns where big: "annotations_of ([0, 1 / 2], [0, 1 / 2]) [''A'', ''B''] [0, 1] = Inr anns
      \<and> length anns = min (length [''A'', ''B'']) (min (length [0, 1 :: int]) (length [0, 1 / 2 :: real]))
      \<and> (\<forall>k < length anns. \<exists>st.
                label_step ([0, 1 / 2], [0, 1 / 2]) k ([''A'', ''B''] ! k) ([0, 1] ! k)
                  ([0, 1 / 2] ! k) ([0, 1 / 2] ! k) = Inr st
              \<and> anns ! k = [(''x'', Num (x_nudged st)), (''y'', Num (y_nudged st)),
                            (''text'', Str ([''A'', ''B''] ! k)), (''showarrow'', Bool False)]
              \<and> map fst (anns ! k) = [''x'', ''y'', ''text'', ''showarrow'']
              \<and> x_nudged st = (if this_dx st > 0 then [0, 1 / 2] ! k + 2 / 1000 else [0, 1 / 2] ! k - 2 / 1000)
              \<and> y_nudged st = (if this_dy st > 0 then [0, 1 / 2] ! k + 2 / 1000 else [0, 1 / 2] ! k - 2 / 1000)
              \<and> (\<not> this_dy st > 0 \<longrightarrow>
                    verticalalignment st = Tuple [Str ''top'']
                  \<and> verticalalignment st \<noteq> Str ''top''))"
    by (rule exE)
  note a = big [THEN conjunct1]
  note n = big [THEN conjunct2, THEN conjunct1]
  note e = big [THEN conjunct2, THEN conjunct2]
  have n2: "length anns = 2" using n by simp
  have k0: "0 < length anns" and k1: "1 < length anns" using n2 by simp_all
  have m0: "map fst (anns ! 0) = [''x'', ''y'', ''text'', ''showarrow'']"
    using e [rule_format, OF k0] by (elim exE conjE)
  have m1: "map fst (anns ! 1) = [''x'', ''y'', ''text'', ''showarrow'']"
    using e [rule_format, OF k1] by (elim exE conjE)
  show ?thesis using l a n2 m0 m1 by (intro conjI exI [of _ anns]) assumption+
qed

subsection \<open>Edges\<close>



















subsection \<open>The node trace\<close>

text \<open>
  Claim C2: in the figure each node's colour is its cluster label, each edge's width
  is the partial correlation magnitude of its pair up to a fixed positive factor, and
  each node's position is its embedding coordinate.
  The code for two instruments at \<open>(0, 0)\<close> and \<open>(1/2, 1/2)\<close>: the positions are the
  embedding rows, the labels are passed as the trace's \<^verbatim>\<open>name\<close>, and the marker
  colour is the random sample, whatever the labels: the cluster labels \<open>[0, 1]\<close> and
  \<open>[1, 0]\<close> give the same colours.
\<close>

theorem C2_node_color_ignores_labels:
  "\<exists>t t'. trace ([0, 1 / 2], [0, 1 / 2]) [0, 1] randn cmap = Inr t
         \<and> trace ([0, 1 / 2], [0, 1 / 2]) [1, 0] randn cmap = Inr t'
         \<and> node_x t = [0, 1 / 2] \<and> node_y t = [0, 1 / 2]
         \<and> node_name t = [0, 1] \<and> node_name t' = [1, 0]
         \<and> marker_color t = randn \<and> marker_color t' = randn"
proof -
  have ne: "(500::int) \<noteq> 1" by simp
  note cs = matplotlib_to_plotly_Inr [OF ne, of cmap]
  show ?thesis unfolding trace_def cs by (simp add: bind_err_def)
qed

subsection \<open>Standardisation\<close>








end
